theory Spec2Isabelle
  imports Main "HOL-Library.Sublist"
begin

section \<open>The store: nodes, stacks and cursors as objects\<close>

text \<open>
  The Go program allocates three kinds of objects and hands out pointers to them:
  \<^verbatim>\<open>node[T]\<close>, \<^verbatim>\<open>Stack[T]\<close> and \<^verbatim>\<open>StackIterator[T]\<close>. Nodes are shared between a
  stack and every cursor created from it, so the objects live in an explicit store and
  a pointer is an address into it. A nullable pointer \<^verbatim>\<open>*node[T]\<close> is an
  \<open>addr option\<close>, \<open>None\<close> being \<^verbatim>\<open>nil\<close>. Allocation appends to the store, so the
  address of a new object is the current size of its region and is always fresh.
\<close>

type_synonym addr = nat

text \<open>\<^verbatim>\<open>type node[T any] struct { value T; next *node[T] }\<close>\<close>

datatype 'a node = Node (node_value: 'a) (node_next: "addr option")

text \<open>\<^verbatim>\<open>type Stack[T any] struct { head *node[T] }\<close>\<close>

record Stack =
  head :: "addr option"

text \<open>\<^verbatim>\<open>type StackIterator[T any] struct { node *node[T] }\<close>\<close>

record StackIterator =
  node :: "addr option"

record 'a store =
  nodes :: "'a node list"
  stacks :: "Stack list"
  iters :: "StackIterator list"

text \<open>
  \<^verbatim>\<open>var ErrEmpty = errors.New("empty stack")\<close> is the sentinel of \<^verbatim>\<open>Pop\<close>;
  \<^verbatim>\<open>fmt.Errorf(msg)\<close> builds an error from its message.
\<close>

datatype error = ErrEmpty | Errorf string

text \<open>
  Reading through a pointer. Go has no dangling pointers, and dereferencing \<^verbatim>\<open>nil\<close>
  panics; in the model a method whose receiver or node pointer designates no object of
  the store does not return a result (\<open>None\<close>).
\<close>

definition deref :: "'x list \<Rightarrow> addr \<Rightarrow> 'x option" where
  "deref h a = (if a < length h then Some (h ! a) else None)"

definition empty_store :: "'a store" where
  "empty_store = \<lparr>nodes = [], stacks = [], iters = []\<rparr>"

text \<open>\<^verbatim>\<open>var s Stack[T]\<close>: a new stack object, its head \<^verbatim>\<open>nil\<close>; the result is \<^verbatim>\<open>&s\<close>.\<close>

definition NewStack :: "'a store \<Rightarrow> addr \<times> 'a store" where
  "NewStack \<sigma> = (length (stacks \<sigma>), \<sigma>\<lparr>stacks := stacks \<sigma> @ [\<lparr>head = None\<rparr>]\<rparr>)"

section \<open>The linked stack (stack.go)\<close>

text \<open>
  \<^verbatim>\<open>func (s *Stack[T]) Push(v T) { s.head = &node[T]{v, s.head} }\<close>
\<close>

definition Push :: "addr \<Rightarrow> 'a \<Rightarrow> 'a store \<Rightarrow> 'a store option" where
  "Push s v \<sigma> =
     (case deref (stacks \<sigma>) s of
        None \<Rightarrow> None
      | Some st \<Rightarrow>
          Some (\<sigma>\<lparr>nodes := nodes \<sigma> @ [Node v (head st)],
                  stacks := (stacks \<sigma>)[s := st\<lparr>head := Some (length (nodes \<sigma>))\<rparr>]\<rparr>))"

text \<open>
  \<^verbatim>\<open>
  func (s *Stack[T]) Pop() (T, error) {
      if s.head == nil {
          var v T
          return v, ErrEmpty
      }
      n := s.head
      s.head = s.head.next
      return n.value, nil
  }
  \<close>
  The zero value of \<^verbatim>\<open>T\<close> (\<^verbatim>\<open>var v T\<close>) is the parameter \<open>zero\<close>. The result pairs
  the value with the error, \<open>None\<close> being the \<^verbatim>\<open>nil\<close> error.
\<close>

definition Pop :: "'a \<Rightarrow> addr \<Rightarrow> 'a store \<Rightarrow> (('a \<times> error option) \<times> 'a store) option" where
  "Pop zero s \<sigma> =
     (case deref (stacks \<sigma>) s of
        None \<Rightarrow> None
      | Some st \<Rightarrow>
          (case head st of
             None \<Rightarrow> Some ((zero, Some ErrEmpty), \<sigma>)
           | Some a \<Rightarrow>
               (case deref (nodes \<sigma>) a of
                  None \<Rightarrow> None
                | Some n \<Rightarrow>
                    Some ((node_value n, None),
                          \<sigma>\<lparr>stacks := (stacks \<sigma>)[s := st\<lparr>head := node_next n\<rparr>]\<rparr>))))"

text \<open>
  \<^verbatim>\<open>func (s *Stack[T]) Items() *StackIterator[T] { return &StackIterator[T]{s.head} }\<close>
  allocates a new cursor object on every call.
\<close>

definition Items :: "addr \<Rightarrow> 'a store \<Rightarrow> (addr \<times> 'a store) option" where
  "Items s \<sigma> =
     (case deref (stacks \<sigma>) s of
        None \<Rightarrow> None
      | Some st \<Rightarrow> Some (length (iters \<sigma>), \<sigma>\<lparr>iters := iters \<sigma> @ [\<lparr>node = head st\<rparr>]\<rparr>))"

text \<open>
  \<^verbatim>\<open>
  func (s *StackIterator[T]) Next() (T, bool) {
      if s.node == nil {
          var v T
          return v, false
      }
      n := s.node
      s.node = s.node.next
      return n.value, true
  }
  \<close>
\<close>

definition Next :: "'a \<Rightarrow> addr \<Rightarrow> 'a store \<Rightarrow> (('a \<times> bool) \<times> 'a store) option" where
  "Next zero it \<sigma> =
     (case deref (iters \<sigma>) it of
        None \<Rightarrow> None
      | Some c \<Rightarrow>
          (case node c of
             None \<Rightarrow> Some ((zero, False), \<sigma>)
           | Some a \<Rightarrow>
               (case deref (nodes \<sigma>) a of
                  None \<Rightarrow> None
                | Some n \<Rightarrow>
                    Some ((node_value n, True),
                          \<sigma>\<lparr>iters := (iters \<sigma>)[it := c\<lparr>node := node_next n\<rparr>]\<rparr>))))"

section \<open>Push-style sequences\<close>

text \<open>
  A consumer \<^verbatim>\<open>yield func(T) bool\<close> is a closure over the caller's variables: it is a
  function of the element and of the caller's state \<open>'c\<close>, returning the continue
  signal and the new state. A producer \<^verbatim>\<open>func(yield func(T) bool)\<close> takes the consumer
  and the caller's state and returns the state it leaves behind. Consumers do not touch
  the store.
\<close>

type_synonym ('a, 'c) consumer = "'a \<Rightarrow> 'c \<Rightarrow> bool \<times> 'c"

text \<open>
  \<^verbatim>\<open>
  func (s *Stack[T]) Iter() func(func(T) bool) {
      iter := func(yield func(T) bool) {
          for n := s.head; n != nil; n = n.next {
              if !yield(n.value) {
                  return
              }
          }
      }
      return iter
  }
  \<close>
  The loop follows \<^verbatim>\<open>next\<close> pointers through the store; on a store whose chain is
  cyclic it would run forever, so it is a partial function and \<open>None\<close> is not
  returning.
\<close>

partial_function (option) iter_loop ::
  "'a node list \<Rightarrow> addr option \<Rightarrow> ('a, 'c) consumer \<Rightarrow> 'c \<Rightarrow> 'c option" where
  "iter_loop h n yield c =
     (case n of
        None \<Rightarrow> Some c
      | Some a \<Rightarrow>
          (case deref h a of
             None \<Rightarrow> None
           | Some nd \<Rightarrow>
               (case yield (node_value nd) c of
                  (ok, c') \<Rightarrow> if \<not> ok then Some c' else iter_loop h (node_next nd) yield c')))"

declare iter_loop.simps [code]

text \<open>The closure reads \<^verbatim>\<open>s.head\<close> when it is driven; \<open>\<sigma>\<close> is the store at that time.\<close>

definition Iter :: "addr \<Rightarrow> 'a store \<Rightarrow> ('a, 'c) consumer \<Rightarrow> 'c \<Rightarrow> 'c option" where
  "Iter s \<sigma> yield c =
     (case deref (stacks \<sigma>) s of
        None \<Rightarrow> None
      | Some st \<Rightarrow> iter_loop (nodes \<sigma>) (head st) yield c)"

text \<open>
  The loop of \<^verbatim>\<open>main\<close> that drains a cursor,
  \<^verbatim>\<open>for v, ok := it.Next(); ok; v, ok = it.Next() { fmt.Println(v) }\<close>,
  with the values collected instead of printed.
\<close>

partial_function (option) drain ::
  "'a \<Rightarrow> addr \<Rightarrow> 'a store \<Rightarrow> ('a list \<times> 'a store) option" where
  "drain zero it \<sigma> =
     (case Next zero it \<sigma> of
        None \<Rightarrow> None
      | Some ((v, ok), \<sigma>') \<Rightarrow>
          if ok then Option.bind (drain zero it \<sigma>') (\<lambda>(vs, \<sigma>''). Some (v # vs, \<sigma>''))
          else Some ([], \<sigma>'))"

declare drain.simps [code]

section \<open>Filter (filter.go)\<close>

text \<open>
  \<^verbatim>\<open>
  func Filter[T any](values []T, pred func(T) bool) func(func(T) bool) {
      fn := func(yield func(T) bool) {
          for _, v := range values {
              if !pred(v) {
                  continue
              }
              if !yield(v) {
                  break
              }
          }
      }
      return fn
  }
  \<close>
  The source is a slice. \<^verbatim>\<open>pred\<close> is a closure like \<^verbatim>\<open>yield\<close>, so it too acts on the
  caller's state; a pure predicate \<open>P\<close> is \<open>\<lambda>v c. (P v, c)\<close>.
\<close>

type_synonym ('a, 'c) predicate = "'a \<Rightarrow> 'c \<Rightarrow> bool \<times> 'c"

fun Filter :: "'a list \<Rightarrow> ('a, 'c) predicate \<Rightarrow> ('a, 'c) consumer \<Rightarrow> 'c \<Rightarrow> 'c" where
  "Filter [] pred yield c = c"
| "Filter (v # values) pred yield c =
     (case pred v c of
        (p, c1) \<Rightarrow>
          if \<not> p then Filter values pred yield c1
          else (case yield v c1 of
                  (ok, c2) \<Rightarrow> if \<not> ok then c2 else Filter values pred yield c2))"

section \<open>Ints (bug.go)\<close>

text \<open>
  \<^verbatim>\<open>
  func Ints(n int) func(func(int) bool) {
      fn := func(yield func(int) bool) {
          for i := range n {
              if !yield(i) {
                  return
              }
          }
      }
      return fn
  }
  \<close>
  \<^verbatim>\<open>range n\<close> runs \<open>i\<close> from \<open>0\<close> while \<open>i < n\<close>; \<open>i\<close> never exceeds \<open>n\<close>, so nothing
  wraps.
\<close>

function ints_loop :: "int \<Rightarrow> int \<Rightarrow> (int, 'c) consumer \<Rightarrow> 'c \<Rightarrow> 'c" where
  "ints_loop i n yield c =
     (if i < n
      then (case yield i c of (ok, c') \<Rightarrow> if \<not> ok then c' else ints_loop (i + 1) n yield c')
      else c)"
  by pat_completeness auto
termination
  by (relation "measure (\<lambda>(i, n, yield, c). nat (n - i))") auto

declare ints_loop.simps [simp del]

definition Ints :: "int \<Rightarrow> (int, 'c) consumer \<Rightarrow> 'c \<Rightarrow> 'c" where
  "Ints n yield c = ints_loop 0 n yield c"

section \<open>The pull adapter and Max\<close>

text \<open>
  \<^verbatim>\<open>iter.Pull\<close> is the Go standard library's adapter, not code of this repository. It
  runs the producer as a coroutine: each \<^verbatim>\<open>next()\<close> resumes the producer until its next
  \<^verbatim>\<open>yield\<close>, whose argument \<^verbatim>\<open>next\<close> returns with \<^verbatim>\<open>true\<close>, and the suspended
  \<^verbatim>\<open>yield\<close> returns \<^verbatim>\<open>true\<close> at the following \<^verbatim>\<open>next()\<close>; once the producer has
  returned, \<^verbatim>\<open>next()\<close> returns the zero value and \<^verbatim>\<open>false\<close>, on every further call too.
  \<^verbatim>\<open>Max\<close> pulls until that happens, so the producer only ever sees a consumer that
  continues. The adapter is modelled by the elements the producer hands to such a
  consumer, still to be pulled; a producer that never returns gives no adapter (\<open>None\<close>),
  as \<^verbatim>\<open>Max\<close> would never return on it. \<^verbatim>\<open>stop()\<close> releases the coroutine and has no
  part in the result.
\<close>

definition Pull :: "(('a, 'a list) consumer \<Rightarrow> 'a list \<Rightarrow> 'a list option) \<Rightarrow> 'a list option" where
  "Pull seq = seq (\<lambda>v acc. (True, acc @ [v])) []"

definition pull :: "'a \<Rightarrow> 'a list \<Rightarrow> ('a \<times> bool) \<times> 'a list" where
  "pull zero p = (case p of [] \<Rightarrow> ((zero, False), []) | v # p' \<Rightarrow> ((v, True), p'))"

text \<open>
  stack.go:
  \<^verbatim>\<open>
  func Max[T cmp.Ordered](seq iter.Seq[T]) (T, error) {
      pull, stop := iter.Pull(seq)
      defer stop()
      m, ok := pull()
      if !ok {
          return m, fmt.Errorf("Max of empty sequence")
      }
      for v, ok := pull(); ok; v, ok = pull() {
          if v > m {
              m = v
          }
      }
      return m, nil
  }
  \<close>
  \<^verbatim>\<open>cmp.Ordered\<close> is taken as a linear order (integers and strings; a floating-point
  NaN is outside it).
\<close>

function max_loop :: "'a::linorder \<Rightarrow> 'a \<Rightarrow> 'a list \<Rightarrow> 'a" where
  "max_loop zero m p =
     (case pull zero p of
        ((v, ok), p') \<Rightarrow> if ok then max_loop zero (if v > m then v else m) p' else m)"
  by pat_completeness auto
termination
  by (relation "measure (\<lambda>(zero, m, p). length p)") (auto simp: pull_def split: list.splits)

declare max_loop.simps [simp del]

definition Max_stack ::
  "'a::linorder \<Rightarrow> (('a, 'a list) consumer \<Rightarrow> 'a list \<Rightarrow> 'a list option) \<Rightarrow> ('a \<times> error option) option" where
  "Max_stack zero seq =
     (case Pull seq of
        None \<Rightarrow> None
      | Some p \<Rightarrow>
          (case pull zero p of
             ((m, ok), p1) \<Rightarrow>
               if \<not> ok then Some (m, Some (Errorf ''Max of empty sequence''))
               else Some (max_loop zero m p1, None)))"

text \<open>
  bug.go has the same function with two \<^verbatim>\<open>fmt.Println\<close> calls added,
  \<^verbatim>\<open>fmt.Println(">>> m:", m)\<close> after the first pull and \<^verbatim>\<open>fmt.Println(">>> v:", v)\<close>
  at the top of the loop body. The console is a list of printed lines, each the label
  and the value.
\<close>

function max_loop_bug ::
  "'a::linorder \<Rightarrow> 'a \<Rightarrow> 'a list \<Rightarrow> (string \<times> 'a) list \<Rightarrow> 'a \<times> (string \<times> 'a) list" where
  "max_loop_bug zero m p out =
     (case pull zero p of
        ((v, ok), p') \<Rightarrow>
          if ok then max_loop_bug zero (if v > m then v else m) p' (out @ [(''>>> v:'', v)])
          else (m, out))"
  by pat_completeness auto
termination
  by (relation "measure (\<lambda>(zero, m, p, out). length p)") (auto simp: pull_def split: list.splits)

declare max_loop_bug.simps [simp del]

definition Max_bug ::
  "'a::linorder \<Rightarrow> (('a, 'a list) consumer \<Rightarrow> 'a list \<Rightarrow> 'a list option)
     \<Rightarrow> (('a \<times> error option) \<times> (string \<times> 'a) list) option" where
  "Max_bug zero seq =
     (case Pull seq of
        None \<Rightarrow> None
      | Some p \<Rightarrow>
          (case pull zero p of
             ((m, ok), p1) \<Rightarrow>
               if \<not> ok then Some ((m, Some (Errorf ''Max of empty sequence'')), [])
               else (case max_loop_bug zero m p1 [(''>>> m:'', m)] of
                       (m', out) \<Rightarrow> Some ((m', None), out))))"

section \<open>Event (filter.go)\<close>

text \<open>
  \<^verbatim>\<open>
  type Event struct { User string; Kind string }

  func (e Event) Valid() bool {
      if e.User == "" || e.Kind == "" {
          return false
      }
      return true
  }
  \<close>
\<close>

record Event =
  User :: string
  Kind :: string

definition Valid :: "Event \<Rightarrow> bool" where
  "Valid e = (if User e = '''' \<or> Kind e = '''' then False else True)"

section \<open>What a stack holds, and the callers the properties are stated with\<close>

text \<open>
  \<open>chain h p xs\<close>: following \<^verbatim>\<open>next\<close> from the pointer \<open>p\<close> in the node region \<open>h\<close>
  visits nodes holding exactly the values \<open>xs\<close>, in this order, and then reaches
  \<^verbatim>\<open>nil\<close>. A stack holds \<open>xs\<close> (top first) when its head has this chain.
\<close>

fun chain :: "'a node list \<Rightarrow> addr option \<Rightarrow> 'a list \<Rightarrow> bool" where
  "chain h p [] = (p = None)"
| "chain h p (x # xs) =
     (case p of
        None \<Rightarrow> False
      | Some a \<Rightarrow> a < length h \<and> node_value (h ! a) = x \<and> chain h (node_next (h ! a)) xs)"

definition stack_holds :: "'a store \<Rightarrow> addr \<Rightarrow> 'a list \<Rightarrow> bool" where
  "stack_holds \<sigma> s xs = (s < length (stacks \<sigma>) \<and> chain (nodes \<sigma>) (head (stacks \<sigma> ! s)) xs)"

text \<open>A cursor has \<open>xs\<close> ahead of it when the node it points to has this chain.\<close>

definition cursor_holds :: "'a store \<Rightarrow> addr \<Rightarrow> 'a list \<Rightarrow> bool" where
  "cursor_holds \<sigma> it xs = (it < length (iters \<sigma>) \<and> chain (nodes \<sigma>) (node (iters \<sigma> ! it)) xs)"

text \<open>
  The invariant of the store: every stack and every cursor has a chain, that is, its
  pointer leads through allocated nodes to \<^verbatim>\<open>nil\<close>. The empty store has it and every
  operation keeps it (section \<open>Every store the program builds is well formed\<close>), so
  the assumption \<open>stack_holds \<sigma> s xs\<close> of the properties below asks nothing of a stack
  the program can build.
\<close>

definition store_ok :: "'a store \<Rightarrow> bool" where
  "store_ok \<sigma> =
     ((\<forall>s < length (stacks \<sigma>). \<exists>xs. stack_holds \<sigma> s xs)
      \<and> (\<forall>it < length (iters \<sigma>). \<exists>xs. cursor_holds \<sigma> it xs))"

text \<open>
  The Sequence Protocol in the words of the specification, as a reference for the
  producers: the consumer is invoked once per element, in sequence order, and the
  producer returns as soon as the consumer has returned \<^verbatim>\<open>false\<close>.
\<close>

fun drive :: "('a, 'c) consumer \<Rightarrow> 'a list \<Rightarrow> 'c \<Rightarrow> 'c" where
  "drive yield [] c = c"
| "drive yield (x # xs) c =
     (case yield x c of (ok, c') \<Rightarrow> if \<not> ok then c' else drive yield xs c')"

text \<open>A caller pushing the values \<open>vs\<close> one after the other, first to last.\<close>

fun push_all :: "addr \<Rightarrow> 'a list \<Rightarrow> 'a store \<Rightarrow> 'a store option" where
  "push_all s [] \<sigma> = Some \<sigma>"
| "push_all s (v # vs) \<sigma> =
     (case Push s v \<sigma> of None \<Rightarrow> None | Some \<sigma>' \<Rightarrow> push_all s vs \<sigma>')"

text \<open>A caller popping \<open>k\<close> times and keeping every returned pair.\<close>

fun pop_n :: "'a \<Rightarrow> addr \<Rightarrow> nat \<Rightarrow> 'a store \<Rightarrow> (('a \<times> error option) list \<times> 'a store) option" where
  "pop_n zero s 0 \<sigma> = Some ([], \<sigma>)"
| "pop_n zero s (Suc k) \<sigma> =
     (case Pop zero s \<sigma> of
        None \<Rightarrow> None
      | Some (r, \<sigma>') \<Rightarrow>
          (case pop_n zero s k \<sigma>' of
             None \<Rightarrow> None
           | Some (rs, \<sigma>'') \<Rightarrow> Some (r # rs, \<sigma>'')))"

text \<open>A caller mutating the stack by any sequence of pushes and pops.\<close>

datatype 'a stack_op = DoPush 'a | DoPop

fun run_ops :: "'a \<Rightarrow> addr \<Rightarrow> 'a stack_op list \<Rightarrow> 'a store \<Rightarrow> 'a store option" where
  "run_ops zero s [] \<sigma> = Some \<sigma>"
| "run_ops zero s (DoPush v # ops) \<sigma> =
     (case Push s v \<sigma> of None \<Rightarrow> None | Some \<sigma>' \<Rightarrow> run_ops zero s ops \<sigma>')"
| "run_ops zero s (DoPop # ops) \<sigma> =
     (case Pop zero s \<sigma> of None \<Rightarrow> None | Some (r, \<sigma>') \<Rightarrow> run_ops zero s ops \<sigma>')"

text \<open>
  Observation of the callbacks. \<open>observed yield\<close> behaves as \<open>yield\<close> and also records
  every invocation, with the element it was given and the signal it returned.
  \<open>observed_pred\<close> and \<open>observed_yield\<close> do the same for the two callbacks of
  \<open>Filter\<close>, each in a log of its own.
\<close>

definition observed :: "('a, 'c) consumer \<Rightarrow> ('a, 'c \<times> ('a \<times> bool) list) consumer" where
  "observed yield v = (\<lambda>(c, log). case yield v c of (ok, c') \<Rightarrow> (ok, (c', log @ [(v, ok)])))"

definition observed_pred ::
  "('a, 'c) predicate \<Rightarrow> ('a, 'c \<times> ('a \<times> bool) list \<times> ('a \<times> bool) list) predicate" where
  "observed_pred pred v =
     (\<lambda>(c, plog, ylog). case pred v c of (p, c') \<Rightarrow> (p, (c', plog @ [(v, p)], ylog)))"

definition observed_yield ::
  "('a, 'c) consumer \<Rightarrow> ('a, 'c \<times> ('a \<times> bool) list \<times> ('a \<times> bool) list) consumer" where
  "observed_yield yield v =
     (\<lambda>(c, plog, ylog). case yield v c of (ok, c') \<Rightarrow> (ok, (c', plog, ylog @ [(v, ok)])))"

section \<open>Reading and writing the store\<close>

lemma deref_Some: "a < length h \<Longrightarrow> deref h a = Some (h ! a)"
  by (simp add: deref_def)

lemma chain_append: "chain h p xs \<Longrightarrow> chain (h @ h') p xs"
  by (induction xs arbitrary: p) (auto split: option.splits simp: nth_append)

lemma chain_ConsD:
  "chain h p (x # xs) \<Longrightarrow>
     \<exists>a. p = Some a \<and> a < length h \<and> node_value (h ! a) = x \<and> chain h (node_next (h ! a)) xs"
  by (cases p) auto

lemma Stack_head_update: "(r :: Stack)\<lparr>head := x\<rparr> = \<lparr>head = x\<rparr>"
  by (cases r) simp

lemma StackIterator_node_update: "(r :: StackIterator)\<lparr>node := x\<rparr> = \<lparr>node = x\<rparr>"
  by (cases r) simp

lemma Push_Some:
  "s < length (stacks \<sigma>) \<Longrightarrow>
     Push s v \<sigma> =
       Some (\<sigma>\<lparr>nodes := nodes \<sigma> @ [Node v (head (stacks \<sigma> ! s))],
               stacks := (stacks \<sigma>)[s := \<lparr>head = Some (length (nodes \<sigma>))\<rparr>]\<rparr>)"
  by (simp add: Push_def deref_Some Stack_head_update)

lemma Push_holds:
  assumes "stack_holds \<sigma> s xs"
  shows "\<exists>\<sigma>'. Push s v \<sigma> = Some \<sigma>' \<and> stack_holds \<sigma>' s (v # xs)
           \<and> nodes \<sigma>' = nodes \<sigma> @ [Node v (head (stacks \<sigma> ! s))] \<and> iters \<sigma>' = iters \<sigma>"
  using assms by (simp add: Push_Some stack_holds_def chain_append)

lemma Pop_empty:
  "s < length (stacks \<sigma>) \<Longrightarrow> head (stacks \<sigma> ! s) = None
     \<Longrightarrow> Pop zero s \<sigma> = Some ((zero, Some ErrEmpty), \<sigma>)"
  by (simp add: Pop_def deref_Some)

lemma Pop_holds:
  assumes "stack_holds \<sigma> s (x # xs)"
  shows "\<exists>\<sigma>'. Pop zero s \<sigma> = Some ((x, None), \<sigma>') \<and> stack_holds \<sigma>' s xs
           \<and> nodes \<sigma>' = nodes \<sigma> \<and> iters \<sigma>' = iters \<sigma>"
proof -
  from assms have s: "s < length (stacks \<sigma>)" by (simp add: stack_holds_def)
  from assms obtain a where a: "head (stacks \<sigma> ! s) = Some a" "a < length (nodes \<sigma>)"
    "node_value (nodes \<sigma> ! a) = x" "chain (nodes \<sigma>) (node_next (nodes \<sigma> ! a)) xs"
    unfolding stack_holds_def by (blast dest: chain_ConsD)
  from s a show ?thesis
    by (simp add: Pop_def deref_Some stack_holds_def)
qed

lemma Items_Some:
  "s < length (stacks \<sigma>) \<Longrightarrow>
     Items s \<sigma> = Some (length (iters \<sigma>), \<sigma>\<lparr>iters := iters \<sigma> @ [\<lparr>node = head (stacks \<sigma> ! s)\<rparr>]\<rparr>)"
  by (simp add: Items_def deref_Some)

lemma Next_end:
  "it < length (iters \<sigma>) \<Longrightarrow> node (iters \<sigma> ! it) = None
     \<Longrightarrow> Next zero it \<sigma> = Some ((zero, False), \<sigma>)"
  by (simp add: Next_def deref_Some)

lemma Next_holds:
  assumes "cursor_holds \<sigma> it (x # xs)"
  shows "\<exists>p. Next zero it \<sigma> = Some ((x, True), \<sigma>\<lparr>iters := (iters \<sigma>)[it := \<lparr>node = p\<rparr>]\<rparr>)
           \<and> chain (nodes \<sigma>) p xs"
proof -
  from assms have it: "it < length (iters \<sigma>)" by (simp add: cursor_holds_def)
  from assms obtain a where a: "node (iters \<sigma> ! it) = Some a" "a < length (nodes \<sigma>)"
    "node_value (nodes \<sigma> ! a) = x" "chain (nodes \<sigma>) (node_next (nodes \<sigma> ! a)) xs"
    unfolding cursor_holds_def by (blast dest: chain_ConsD)
  from it a show ?thesis
    by (auto simp add: Next_def deref_Some StackIterator_node_update)
qed

lemma drain_holds:
  "cursor_holds \<sigma> it xs \<Longrightarrow>
     drain zero it \<sigma> = Some (xs, \<sigma>\<lparr>iters := (iters \<sigma>)[it := \<lparr>node = None\<rparr>]\<rparr>)"
proof (induction xs arbitrary: \<sigma>)
  case Nil
  then have it: "it < length (iters \<sigma>)" and n: "node (iters \<sigma> ! it) = None"
    by (simp_all add: cursor_holds_def)
  from n have "iters \<sigma> ! it = \<lparr>node = None\<rparr>" by (cases "iters \<sigma> ! it") simp
  then have "(iters \<sigma>)[it := \<lparr>node = None\<rparr>] = iters \<sigma>" by (metis list_update_id)
  then show ?case
    by (subst drain.simps) (simp add: Next_end [OF it n])
next
  case (Cons x xs)
  from Next_holds [OF Cons.prems, of zero] obtain p
    where nx: "Next zero it \<sigma> = Some ((x, True), \<sigma>\<lparr>iters := (iters \<sigma>)[it := \<lparr>node = p\<rparr>]\<rparr>)"
      and p: "chain (nodes \<sigma>) p xs" by blast
  let ?\<sigma> = "\<sigma>\<lparr>iters := (iters \<sigma>)[it := \<lparr>node = p\<rparr>]\<rparr>"
  from Cons.prems have it: "it < length (iters \<sigma>)" by (simp add: cursor_holds_def)
  with p have "cursor_holds ?\<sigma> it xs" by (simp add: cursor_holds_def)
  then have "drain zero it ?\<sigma> = Some (xs, ?\<sigma>\<lparr>iters := (iters ?\<sigma>)[it := \<lparr>node = None\<rparr>]\<rparr>)"
    by (rule Cons.IH)
  then show ?case
    by (subst drain.simps) (simp add: nx)
qed

lemma push_all_holds:
  "stack_holds \<sigma> s xs \<Longrightarrow>
     \<exists>\<sigma>'. push_all s vs \<sigma> = Some \<sigma>' \<and> stack_holds \<sigma>' s (rev vs @ xs) \<and> iters \<sigma>' = iters \<sigma>"
proof (induction vs arbitrary: \<sigma> xs)
  case Nil
  then show ?case by simp
next
  case (Cons v vs)
  from Push_holds [OF Cons.prems, of v] obtain \<sigma>1
    where p: "Push s v \<sigma> = Some \<sigma>1" "stack_holds \<sigma>1 s (v # xs)" "iters \<sigma>1 = iters \<sigma>"
    by blast
  from Cons.IH [OF p(2)] p(1) p(3) show ?case by auto
qed

lemma pop_n_holds:
  "stack_holds \<sigma> s (ys @ xs) \<Longrightarrow>
     \<exists>\<sigma>'. pop_n zero s (length ys) \<sigma> = Some (map (\<lambda>v. (v, None)) ys, \<sigma>')
        \<and> stack_holds \<sigma>' s xs \<and> nodes \<sigma>' = nodes \<sigma> \<and> iters \<sigma>' = iters \<sigma>"
proof (induction ys arbitrary: \<sigma>)
  case Nil
  then show ?case by simp
next
  case (Cons y ys)
  then have "stack_holds \<sigma> s (y # (ys @ xs))" by simp
  from Pop_holds [OF this, of zero] obtain \<sigma>1
    where p: "Pop zero s \<sigma> = Some ((y, None), \<sigma>1)" "stack_holds \<sigma>1 s (ys @ xs)"
      "nodes \<sigma>1 = nodes \<sigma>" "iters \<sigma>1 = iters \<sigma>"
    by blast
  from Cons.IH [OF p(2)] p(1) p(3) p(4) show ?case by auto
qed

lemma pop_n_empty:
  "s < length (stacks \<sigma>) \<Longrightarrow> head (stacks \<sigma> ! s) = None
     \<Longrightarrow> pop_n zero s k \<sigma> = Some (replicate k (zero, Some ErrEmpty), \<sigma>)"
  by (induction k) (simp_all add: Pop_empty)

lemma run_ops_holds:
  "stack_holds \<sigma> s ys \<Longrightarrow> cursor_holds \<sigma> it xs \<Longrightarrow>
     \<exists>\<sigma>' ys'. run_ops zero s ops \<sigma> = Some \<sigma>' \<and> stack_holds \<sigma>' s ys' \<and> cursor_holds \<sigma>' it xs"
proof (induction ops arbitrary: \<sigma> ys)
  case Nil
  then show ?case by auto
next
  case (Cons op ops)
  show ?case
  proof (cases op)
    case (DoPush v)
    from Push_holds [OF Cons.prems(1), of v] obtain \<sigma>1
      where p: "Push s v \<sigma> = Some \<sigma>1" "stack_holds \<sigma>1 s (v # ys)"
        "nodes \<sigma>1 = nodes \<sigma> @ [Node v (head (stacks \<sigma> ! s))]" "iters \<sigma>1 = iters \<sigma>"
      by blast
    from Cons.prems(2) p(3) p(4) have "cursor_holds \<sigma>1 it xs"
      by (simp add: cursor_holds_def chain_append)
    from Cons.IH [OF p(2) this] p(1) DoPush show ?thesis by simp
  next
    case DoPop
    show ?thesis
    proof (cases ys)
      case Nil
      with Cons.prems(1) have "Pop zero s \<sigma> = Some ((zero, Some ErrEmpty), \<sigma>)"
        by (simp add: stack_holds_def Pop_empty)
      with Cons.IH [OF Cons.prems] DoPop show ?thesis by simp
    next
      case ys: (Cons y ys')
      with Cons.prems(1) have "stack_holds \<sigma> s (y # ys')" by simp
      from Pop_holds [OF this, of zero] obtain \<sigma>1
        where p: "Pop zero s \<sigma> = Some ((y, None), \<sigma>1)" "stack_holds \<sigma>1 s ys'"
          "nodes \<sigma>1 = nodes \<sigma>" "iters \<sigma>1 = iters \<sigma>"
        by blast
      from Cons.prems(2) p(3) p(4) have "cursor_holds \<sigma>1 it xs"
        by (simp add: cursor_holds_def)
      from Cons.IH [OF p(2) this] p(1) DoPop show ?thesis by simp
    qed
  qed
qed

section \<open>Producers against the protocol\<close>

lemma iter_loop_chain: "chain h p xs \<Longrightarrow> iter_loop h p yield c = Some (drive yield xs c)"
proof (induction xs arbitrary: p c)
  case Nil
  then show ?case by (simp add: iter_loop.simps)
next
  case (Cons x xs)
  then obtain a where a: "p = Some a" "a < length h" "node_value (h ! a) = x"
    "chain h (node_next (h ! a)) xs"
    by (blast dest: chain_ConsD)
  obtain ok c' where y: "yield x c = (ok, c')" by (cases "yield x c")
  with a Cons.IH [OF a(4), of c'] show ?case
    by (subst iter_loop.simps) (simp add: deref_Some)
qed

lemma Iter_holds: "stack_holds \<sigma> s xs \<Longrightarrow> Iter s \<sigma> yield c = Some (drive yield xs c)"
  by (simp add: stack_holds_def Iter_def deref_Some iter_loop_chain)

lemma ints_loop_step:
  "i < n \<Longrightarrow> ints_loop i n yield c =
     (case yield i c of (ok, c') \<Rightarrow> if \<not> ok then c' else ints_loop (i + 1) n yield c')"
  by (subst ints_loop.simps) simp

lemma ints_loop_done: "\<not> i < n \<Longrightarrow> ints_loop i n yield c = c"
  by (subst ints_loop.simps) simp

lemma ints_loop_drive: "0 \<le> i \<Longrightarrow> ints_loop i n yield c = drive yield (map int [nat i..<nat n]) c"
proof (induction i n yield c rule: ints_loop.induct)
  case (1 i n yield c)
  show ?case
  proof (cases "i < n")
    case True
    with 1(2) have "nat i < nat n" by simp
    then have "[nat i..<nat n] = nat i # [Suc (nat i)..<nat n]" by (rule upt_conv_Cons)
    moreover from 1(2) have "Suc (nat i) = nat (i + 1)" by simp
    ultimately have up: "map int [nat i..<nat n] = i # map int [nat (i + 1)..<nat n]"
      using 1(2) by simp
    obtain ok c' where y: "yield i c = (ok, c')" by (cases "yield i c")
    show ?thesis
    proof (cases ok)
      case True
      have "ints_loop (i + 1) n yield c' = drive yield (map int [nat (i + 1)..<nat n]) c'"
        by (rule 1(1) [OF \<open>i < n\<close> y [symmetric]]) (use True 1(2) in simp_all)
      then show ?thesis
        by (simp only: ints_loop_step [OF \<open>i < n\<close>] up drive.simps y prod.case True not_True_eq_False if_False)
    next
      case False
      then show ?thesis
        by (simp only: ints_loop_step [OF \<open>i < n\<close>] up drive.simps y prod.case not_False_eq_True if_True)
    qed
  next
    case False
    with 1(2) show ?thesis by (simp add: ints_loop_done)
  qed
qed

lemma Ints_drive: "Ints n yield c = drive yield (map int [0..<nat n]) c"
  by (simp add: Ints_def ints_loop_drive)

lemma drive_collect: "drive (\<lambda>v acc. (True, acc @ [v])) xs acc = acc @ xs"
  by (induction xs arbitrary: acc) auto

lemma max_loop_Nil: "max_loop zero m [] = m"
  by (subst max_loop.simps) (simp add: pull_def)

lemma max_loop_Cons: "max_loop zero m (v # p) = max_loop zero (if v > m then v else m) p"
  by (subst max_loop.simps) (simp add: pull_def)

lemma max_loop_bug_Nil: "max_loop_bug zero m [] out = (m, out)"
  by (subst max_loop_bug.simps) (simp add: pull_def)

lemma max_loop_bug_Cons:
  "max_loop_bug zero m (v # p) out =
     max_loop_bug zero (if v > m then v else m) p (out @ [(''>>> v:'', v)])"
  by (subst max_loop_bug.simps) (simp add: pull_def)

lemma max_loop_bug_fst: "fst (max_loop_bug zero m p out) = max_loop zero m p"
  by (induction p arbitrary: m out)
    (simp_all only: max_loop_Nil max_loop_Cons max_loop_bug_Nil max_loop_bug_Cons fst_conv)

lemma max_loop_mem: "max_loop zero m p \<in> set (m # p)"
proof (induction p arbitrary: m)
  case Nil
  show ?case by (simp add: max_loop_Nil)
next
  case (Cons v p)
  from Cons [of "if v > m then v else m"] show ?case
    by (auto simp add: max_loop_Cons split: if_splits)
qed

lemma max_loop_ge: "m \<le> max_loop zero m p"
proof (induction p arbitrary: m)
  case Nil
  show ?case by (simp add: max_loop_Nil)
next
  case (Cons v p)
  have "m \<le> (if v > m then v else m)" by (simp add: less_imp_le)
  also have "\<dots> \<le> max_loop zero (if v > m then v else m) p" by (rule Cons.IH)
  finally show ?case by (simp only: max_loop_Cons)
qed

lemma max_loop_upper: "x \<in> set p \<Longrightarrow> x \<le> max_loop zero m p"
proof (induction p arbitrary: m)
  case Nil
  then show ?case by simp
next
  case (Cons v p)
  show ?case
  proof (cases "x = v")
    case True
    have "v \<le> (if v > m then v else m)" by (simp add: not_less)
    also have "\<dots> \<le> max_loop zero (if v > m then v else m) p" by (rule max_loop_ge)
    finally show ?thesis using True by (simp only: max_loop_Cons)
  next
    case False
    with Cons.prems have "x \<in> set p" by simp
    then have "x \<le> max_loop zero (if v > m then v else m) p" by (rule Cons.IH)
    then show ?thesis by (simp only: max_loop_Cons)
  qed
qed

section \<open>Facts shared by the properties\<close>

lemma NewStack_holds: "stack_holds (snd (NewStack \<sigma>)) (fst (NewStack \<sigma>)) []"
  by (simp add: NewStack_def stack_holds_def)

lemma Items_holds:
  assumes "stack_holds \<sigma> s xs"
  shows "\<exists>\<sigma>'. Items s \<sigma> = Some (length (iters \<sigma>), \<sigma>') \<and> cursor_holds \<sigma>' (length (iters \<sigma>)) xs
           \<and> stack_holds \<sigma>' s xs \<and> length (iters \<sigma>') = Suc (length (iters \<sigma>))
           \<and> (\<forall>it ys. cursor_holds \<sigma> it ys \<longrightarrow> cursor_holds \<sigma>' it ys)"
  using assms by (simp add: Items_Some stack_holds_def cursor_holds_def nth_append)

lemma drain_other:
  assumes "cursor_holds \<sigma> it xs" and "cursor_holds \<sigma> it' ys" and "it' \<noteq> it"
    and "stack_holds \<sigma> s zs"
  shows "\<exists>\<sigma>'. drain zero it \<sigma> = Some (xs, \<sigma>') \<and> cursor_holds \<sigma>' it' ys \<and> stack_holds \<sigma>' s zs"
proof -
  have "drain zero it \<sigma> = Some (xs, \<sigma>\<lparr>iters := (iters \<sigma>)[it := \<lparr>node = None\<rparr>]\<rparr>)"
    using assms(1) by (rule drain_holds)
  moreover have "cursor_holds (\<sigma>\<lparr>iters := (iters \<sigma>)[it := \<lparr>node = None\<rparr>]\<rparr>) it' ys"
    using assms(2,3) by (simp add: cursor_holds_def)
  moreover have "stack_holds (\<sigma>\<lparr>iters := (iters \<sigma>)[it := \<lparr>node = None\<rparr>]\<rparr>) s zs"
    using assms(4) by (simp add: stack_holds_def)
  ultimately show ?thesis by blast
qed

lemma observed_apply:
  "observed yield v (c, log) = (fst (yield v c), (snd (yield v c), log @ [(v, fst (yield v c))]))"
  by (simp add: observed_def split: prod.splits)

lemma drive_observed:
  "\<exists>log'. drive (observed yield) xs (c, log) = (drive yield xs c, log @ log')
      \<and> prefix (map fst log') xs
      \<and> (\<forall>e\<in>set (butlast log'). snd e)
      \<and> (length log' < length xs \<longrightarrow> log' \<noteq> [] \<and> \<not> snd (last log'))"
proof (induction xs arbitrary: c log)
  case Nil
  show ?case by simp
next
  case (Cons x xs)
  obtain ok c1 where y: "yield x c = (ok, c1)" by (cases "yield x c")
  show ?case
  proof (cases ok)
    case False
    with y have "drive (observed yield) (x # xs) (c, log) = (drive yield (x # xs) c, log @ [(x, False)])"
      by (simp add: observed_apply)
    then show ?thesis by force
  next
    case True
    from Cons.IH [of c1 "log @ [(x, True)]"] obtain log'
      where l: "drive (observed yield) xs (c1, log @ [(x, True)]) = (drive yield xs c1, (log @ [(x, True)]) @ log')"
        "prefix (map fst log') xs" "\<forall>e\<in>set (butlast log'). snd e"
        "length log' < length xs \<longrightarrow> log' \<noteq> [] \<and> \<not> snd (last log')"
      by blast
    from True y l(1)
    have "drive (observed yield) (x # xs) (c, log) = (drive yield (x # xs) c, log @ ((x, True) # log'))"
      by (simp add: observed_apply)
    moreover from l(2) have "prefix (map fst ((x, True) # log')) (x # xs)" by simp
    moreover from l(3) have "\<forall>e\<in>set (butlast ((x, True) # log')). snd e" by simp
    moreover from l(4) have "length ((x, True) # log') < length (x # xs)
        \<longrightarrow> (x, True) # log' \<noteq> [] \<and> \<not> snd (last ((x, True) # log'))" by simp
    ultimately show ?thesis by blast
  qed
qed

lemma log_all_true:
  assumes "prefix (map fst log) xs" and "length log < length xs \<longrightarrow> log \<noteq> [] \<and> \<not> snd (last log)"
    and "\<forall>e\<in>set log. snd e"
  shows "map fst log = xs"
proof -
  from assms(2,3) have "\<not> length log < length xs" by (metis last_in_set)
  with assms(1) show ?thesis
    by (metis length_map prefix_order.antisym_conv1 prefix_length_less)
qed

lemma observed_pred_apply:
  "observed_pred pred v (c, plog, ylog) =
     (fst (pred v c), (snd (pred v c), plog @ [(v, fst (pred v c))], ylog))"
  by (simp add: observed_pred_def split: prod.splits)

lemma observed_yield_apply:
  "observed_yield yield v (c, plog, ylog) =
     (fst (yield v c), (snd (yield v c), plog, ylog @ [(v, fst (yield v c))]))"
  by (simp add: observed_yield_def split: prod.splits)

lemma Filter_observed_prefix:
  "\<exists>c' pl' yl'.
     Filter values (observed_pred (\<lambda>v c. (P v, c))) (observed_yield yield) (c, pl, yl)
       = (c', pl @ pl', yl @ yl')
     \<and> prefix (map fst pl') values"
proof (induction "values" arbitrary: c pl yl)
  case Nil
  show ?case by simp
next
  case (Cons v vs)
  show ?case
  proof (cases "P v \<and> fst (yield v c)")
    case True
    from Cons.IH [of "snd (yield v c)" "pl @ [(v, True)]" "yl @ [(v, True)]"] obtain c' pl' yl'
      where "Filter vs (observed_pred (\<lambda>v c. (P v, c))) (observed_yield yield)
               (snd (yield v c), pl @ [(v, True)], yl @ [(v, True)])
             = (c', (pl @ [(v, True)]) @ pl', (yl @ [(v, True)]) @ yl')"
        "prefix (map fst pl') vs" by blast
    with True have "Filter (v # vs) (observed_pred (\<lambda>v c. (P v, c))) (observed_yield yield) (c, pl, yl)
        = (c', pl @ ((v, True) # pl'), yl @ ((v, True) # yl'))
        \<and> prefix (map fst ((v, True) # pl')) (v # vs)"
      by (simp add: observed_pred_apply observed_yield_apply)
    then show ?thesis by blast
  next
    case False
    show ?thesis
    proof (cases "P v")
      case True
      with False have "Filter (v # vs) (observed_pred (\<lambda>v c. (P v, c))) (observed_yield yield) (c, pl, yl)
        = (snd (yield v c), pl @ [(v, True)], yl @ [(v, False)])
        \<and> prefix (map fst [(v, True)]) (v # vs)"
        by (simp add: observed_pred_apply observed_yield_apply)
      then show ?thesis by blast
    next
      case notP: False
      from Cons.IH [of c "pl @ [(v, False)]" yl] obtain c' pl' yl'
        where "Filter vs (observed_pred (\<lambda>v c. (P v, c))) (observed_yield yield)
                 (c, pl @ [(v, False)], yl)
               = (c', (pl @ [(v, False)]) @ pl', yl @ yl')"
          "prefix (map fst pl') vs" by blast
      with notP have "Filter (v # vs) (observed_pred (\<lambda>v c. (P v, c))) (observed_yield yield) (c, pl, yl)
          = (c', pl @ ((v, False) # pl'), yl @ yl')
          \<and> prefix (map fst ((v, False) # pl')) (v # vs)"
        by (simp add: observed_pred_apply)
      then show ?thesis by blast
    qed
  qed
qed

lemma Filter_observed_all:
  assumes "\<forall>v c. fst (yield v c)"
  shows "Filter values (observed_pred (\<lambda>v c. (P v, c))) (observed_yield yield) (c, pl, yl)
       = (drive yield (filter P values) c,
          pl @ map (\<lambda>v. (v, P v)) values,
          yl @ map (\<lambda>v. (v, True)) (filter P values))"
proof (induction "values" arbitrary: c pl yl)
  case Nil
  show ?case by simp
next
  case (Cons v vs)
  obtain ok c1 where y: "yield v c = (ok, c1)" by (cases "yield v c")
  with assms have ok by (metis fst_conv)
  with y show ?case
    by (simp add: observed_pred_apply observed_yield_apply Cons.IH)
qed

lemma Filter_observed_stop:
  assumes "\<forall>v\<in>set pre. \<not> P v" and "P x" and "\<not> fst (yield x c)"
  shows "Filter (pre @ x # rest) (observed_pred (\<lambda>v c. (P v, c))) (observed_yield yield) (c, pl, yl)
       = (snd (yield x c), pl @ map (\<lambda>v. (v, False)) pre @ [(x, True)], yl @ [(x, False)])"
  using assms(1)
proof (induction pre arbitrary: pl)
  case Nil
  from assms(2,3) show ?case
    by (simp add: observed_pred_apply observed_yield_apply)
next
  case (Cons v pre)
  then have "\<not> P v" and "\<forall>v\<in>set pre. \<not> P v" by simp_all
  with Cons.IH [of "pl @ [(v, False)]"] show ?case
    by (simp add: observed_pred_apply)
qed

lemma Filter_observed_general:
  "\<exists>c' pl' yl'.
     Filter values (observed_pred (\<lambda>v c. (P v, c))) (observed_yield yield) (c, pl, yl)
       = (c', pl @ pl', yl @ yl')
     \<and> prefix (map fst pl') values
     \<and> (\<forall>e\<in>set pl'. snd e = P (fst e))
     \<and> map fst yl' = filter P (map fst pl')
     \<and> (\<forall>e\<in>set (butlast yl'). snd e)
     \<and> (length pl' < length values \<longrightarrow> yl' \<noteq> [] \<and> \<not> snd (last yl'))
     \<and> (yl' \<noteq> [] \<and> \<not> snd (last yl') \<longrightarrow> pl' \<noteq> [] \<and> last pl' = (fst (last yl'), True))"
proof (induction "values" arbitrary: c pl yl)
  case Nil
  show ?case by simp
next
  case (Cons v vs)
  let ?F = "\<lambda>xs st. Filter xs (observed_pred (\<lambda>v c. (P v, c))) (observed_yield yield) st"
  show ?case
  proof (cases "P v")
    case False
    from Cons.IH [of c "pl @ [(v, False)]" yl] obtain c' pl' yl'
      where ih: "?F vs (c, pl @ [(v, False)], yl) = (c', (pl @ [(v, False)]) @ pl', yl @ yl')"
        "prefix (map fst pl') vs" "\<forall>e\<in>set pl'. snd e = P (fst e)"
        "map fst yl' = filter P (map fst pl')" "\<forall>e\<in>set (butlast yl'). snd e"
        "length pl' < length vs \<longrightarrow> yl' \<noteq> [] \<and> \<not> snd (last yl')"
        "yl' \<noteq> [] \<and> \<not> snd (last yl') \<longrightarrow> pl' \<noteq> [] \<and> last pl' = (fst (last yl'), True)"
      by blast
    let ?pl = "(v, False) # pl'"
    from False ih(1) have "?F (v # vs) (c, pl, yl) = (c', pl @ ?pl, yl @ yl')"
      by (simp add: observed_pred_apply)
    moreover from ih(2) have "prefix (map fst ?pl) (v # vs)" by simp
    moreover from False ih(3) have "\<forall>e\<in>set ?pl. snd e = P (fst e)" by simp
    moreover from False ih(4) have "map fst yl' = filter P (map fst ?pl)" by simp
    moreover note ih(5)
    moreover from ih(6) have "length ?pl < length (v # vs) \<longrightarrow> yl' \<noteq> [] \<and> \<not> snd (last yl')"
      by simp
    moreover from ih(7)
    have "yl' \<noteq> [] \<and> \<not> snd (last yl') \<longrightarrow> ?pl \<noteq> [] \<and> last ?pl = (fst (last yl'), True)"
      by simp
    ultimately show ?thesis by blast
  next
    case True
    show ?thesis
    proof (cases "fst (yield v c)")
      case False
      let ?pl = "[(v, True)]" and ?yl = "[(v, False)]"
      from True False have "?F (v # vs) (c, pl, yl) = (snd (yield v c), pl @ ?pl, yl @ ?yl)"
        by (simp add: observed_pred_apply observed_yield_apply)
      moreover have "prefix (map fst ?pl) (v # vs)" by simp
      moreover from True have "\<forall>e\<in>set ?pl. snd e = P (fst e)" by simp
      moreover from True have "map fst ?yl = filter P (map fst ?pl)" by simp
      moreover have "\<forall>e\<in>set (butlast ?yl). snd e" by simp
      moreover have "length ?pl < length (v # vs) \<longrightarrow> ?yl \<noteq> [] \<and> \<not> snd (last ?yl)" by simp
      moreover have "?yl \<noteq> [] \<and> \<not> snd (last ?yl) \<longrightarrow> ?pl \<noteq> [] \<and> last ?pl = (fst (last ?yl), True)"
        by simp
      ultimately show ?thesis by blast
    next
      case cont: True
      from Cons.IH [of "snd (yield v c)" "pl @ [(v, True)]" "yl @ [(v, True)]"] obtain c' pl' yl'
        where ih: "?F vs (snd (yield v c), pl @ [(v, True)], yl @ [(v, True)])
                     = (c', (pl @ [(v, True)]) @ pl', (yl @ [(v, True)]) @ yl')"
          "prefix (map fst pl') vs" "\<forall>e\<in>set pl'. snd e = P (fst e)"
          "map fst yl' = filter P (map fst pl')" "\<forall>e\<in>set (butlast yl'). snd e"
          "length pl' < length vs \<longrightarrow> yl' \<noteq> [] \<and> \<not> snd (last yl')"
          "yl' \<noteq> [] \<and> \<not> snd (last yl') \<longrightarrow> pl' \<noteq> [] \<and> last pl' = (fst (last yl'), True)"
        by blast
      let ?pl = "(v, True) # pl'" and ?yl = "(v, True) # yl'"
      from True cont ih(1) have "?F (v # vs) (c, pl, yl) = (c', pl @ ?pl, yl @ ?yl)"
        by (simp add: observed_pred_apply observed_yield_apply)
      moreover from ih(2) have "prefix (map fst ?pl) (v # vs)" by simp
      moreover from True ih(3) have "\<forall>e\<in>set ?pl. snd e = P (fst e)" by simp
      moreover from True ih(4) have "map fst ?yl = filter P (map fst ?pl)" by simp
      moreover from ih(5) have "\<forall>e\<in>set (butlast ?yl). snd e" by simp
      moreover from ih(6) have "length ?pl < length (v # vs) \<longrightarrow> ?yl \<noteq> [] \<and> \<not> snd (last ?yl)"
        by simp
      moreover from ih(7)
      have "?yl \<noteq> [] \<and> \<not> snd (last ?yl) \<longrightarrow> ?pl \<noteq> [] \<and> last ?pl = (fst (last ?yl), True)"
        by (cases "yl' = []") simp_all
      ultimately show ?thesis by blast
    qed
  qed
qed

lemma pull_Nil: "pull zero [] = ((zero, False), [])"
  by (simp add: pull_def)

lemma pull_Cons: "pull zero (v # p) = ((v, True), p)"
  by (simp add: pull_def)

lemma Max_stack_Nil:
  "Pull seq = Some [] \<Longrightarrow> Max_stack zero seq = Some (zero, Some (Errorf ''Max of empty sequence''))"
  by (simp add: Max_stack_def pull_Nil)

lemma Max_stack_Cons:
  "Pull seq = Some (x # p) \<Longrightarrow> Max_stack zero seq = Some (max_loop zero x p, None)"
  by (simp add: Max_stack_def pull_Cons)

lemma Max_bug_Nil:
  "Pull seq = Some [] \<Longrightarrow> Max_bug zero seq = Some ((zero, Some (Errorf ''Max of empty sequence'')), [])"
  by (simp add: Max_bug_def pull_Nil)

lemma Max_bug_Cons:
  "Pull seq = Some (x # p) \<Longrightarrow>
     map_option fst (Max_bug zero seq) = Some (max_loop zero x p, None)"
  using max_loop_bug_fst [of zero x p "[(''>>> m:'', x)]"]
  by (auto simp add: Max_bug_def pull_Cons split: prod.splits)

text \<open>
  The producers of the repository are finite sequences: the traversal of a stack is the
  sequence of what the stack holds, and \<open>Ints n\<close> is \<open>0, \<dots>, n - 1\<close>.
\<close>

lemma Pull_Iter: "stack_holds \<sigma> s xs \<Longrightarrow> Pull (Iter s \<sigma>) = Some xs"
  by (simp add: Pull_def Iter_holds drive_collect)

lemma Pull_Ints: "Pull (\<lambda>yield c. Some (Ints n yield c)) = Some (map int [0..<nat n])"
  by (simp add: Pull_def Ints_drive drive_collect)

section \<open>Every store the program builds is well formed\<close>

lemma store_ok_empty: "store_ok empty_store"
  by (simp add: store_ok_def empty_store_def)

lemma store_ok_NewStack: "store_ok \<sigma> \<Longrightarrow> store_ok (snd (NewStack \<sigma>))"
  unfolding store_ok_def NewStack_def stack_holds_def cursor_holds_def
  by (auto simp: nth_append less_Suc_eq intro: exI [of _ "[]"])

lemma store_ok_Push:
  assumes "store_ok \<sigma>" and "s < length (stacks \<sigma>)"
  shows "\<exists>\<sigma>'. Push s v \<sigma> = Some \<sigma>' \<and> store_ok \<sigma>'"
proof -
  let ?\<sigma> = "\<sigma>\<lparr>nodes := nodes \<sigma> @ [Node v (head (stacks \<sigma> ! s))],
               stacks := (stacks \<sigma>)[s := \<lparr>head = Some (length (nodes \<sigma>))\<rparr>]\<rparr>"
  from assms obtain xs where xs: "stack_holds \<sigma> s xs" by (auto simp: store_ok_def)
  have "\<exists>ys. stack_holds ?\<sigma> t ys" if "t < length (stacks \<sigma>)" for t
  proof (cases "t = s")
    case True
    from Push_holds [OF xs, of v] assms(2) show ?thesis by (auto simp: Push_Some True)
  next
    case False
    from assms(1) that obtain ys where "stack_holds \<sigma> t ys" by (auto simp: store_ok_def)
    with False have "stack_holds ?\<sigma> t ys" by (simp add: stack_holds_def chain_append)
    then show ?thesis ..
  qed
  moreover have "\<exists>ys. cursor_holds ?\<sigma> it ys" if "it < length (iters \<sigma>)" for it
  proof -
    from assms(1) that obtain ys where "cursor_holds \<sigma> it ys" by (auto simp: store_ok_def)
    then have "cursor_holds ?\<sigma> it ys" by (simp add: cursor_holds_def chain_append)
    then show ?thesis ..
  qed
  ultimately have "store_ok ?\<sigma>" by (simp add: store_ok_def)
  with assms(2) show ?thesis by (simp add: Push_Some)
qed

lemma store_ok_Pop:
  assumes "store_ok \<sigma>" and "s < length (stacks \<sigma>)"
  shows "\<exists>r \<sigma>'. Pop zero s \<sigma> = Some (r, \<sigma>') \<and> store_ok \<sigma>'"
proof -
  from assms obtain xs where xs: "stack_holds \<sigma> s xs" by (auto simp: store_ok_def)
  show ?thesis
  proof (cases xs)
    case Nil
    with xs assms show ?thesis by (auto simp: stack_holds_def Pop_empty)
  next
    case (Cons x xs')
    with xs have "stack_holds \<sigma> s (x # xs')" by simp
    from Pop_holds [OF this, of zero] obtain \<sigma>'
      where p: "Pop zero s \<sigma> = Some ((x, None), \<sigma>')" "stack_holds \<sigma>' s xs'"
        "nodes \<sigma>' = nodes \<sigma>" "iters \<sigma>' = iters \<sigma>" by blast
    from xs obtain a where a: "head (stacks \<sigma> ! s) = Some a" "a < length (nodes \<sigma>)"
      unfolding stack_holds_def Cons by (blast dest: chain_ConsD)
    with assms(2) p(1)
    have st: "stacks \<sigma>' = (stacks \<sigma>)[s := \<lparr>head = node_next (nodes \<sigma> ! a)\<rparr>]"
      by (auto simp: Pop_def deref_Some Stack_head_update)
    have "\<exists>ys. stack_holds \<sigma>' t ys" if "t < length (stacks \<sigma>')" for t
    proof (cases "t = s")
      case True
      with p(2) show ?thesis by blast
    next
      case False
      from that st have "t < length (stacks \<sigma>)" by simp
      with assms(1) obtain ys where "stack_holds \<sigma> t ys" by (auto simp: store_ok_def)
      with False st p(3) have "stack_holds \<sigma>' t ys" by (simp add: stack_holds_def)
      then show ?thesis ..
    qed
    moreover have "\<exists>ys. cursor_holds \<sigma>' it ys" if "it < length (iters \<sigma>')" for it
      using assms(1) that p(3) p(4) by (simp add: store_ok_def cursor_holds_def)
    ultimately have "store_ok \<sigma>'" by (simp add: store_ok_def)
    with p(1) show ?thesis by blast
  qed
qed

lemma store_ok_Items:
  assumes "store_ok \<sigma>" and "s < length (stacks \<sigma>)"
  shows "\<exists>it \<sigma>'. Items s \<sigma> = Some (it, \<sigma>') \<and> store_ok \<sigma>'"
proof -
  let ?\<sigma> = "\<sigma>\<lparr>iters := iters \<sigma> @ [\<lparr>node = head (stacks \<sigma> ! s)\<rparr>]\<rparr>"
  from assms obtain xs where xs: "stack_holds \<sigma> s xs" by (auto simp: store_ok_def)
  have "\<exists>ys. stack_holds ?\<sigma> t ys" if "t < length (stacks \<sigma>)" for t
    using assms(1) that by (simp add: store_ok_def stack_holds_def)
  moreover have "\<exists>ys. cursor_holds ?\<sigma> it ys" if "it < Suc (length (iters \<sigma>))" for it
  proof (cases "it = length (iters \<sigma>)")
    case True
    with xs have "cursor_holds ?\<sigma> it xs" by (simp add: cursor_holds_def stack_holds_def)
    then show ?thesis ..
  next
    case False
    with that have "it < length (iters \<sigma>)" by simp
    with assms(1) show ?thesis by (simp add: store_ok_def cursor_holds_def nth_append)
  qed
  ultimately have "store_ok ?\<sigma>" by (simp add: store_ok_def)
  with assms(2) show ?thesis by (simp add: Items_Some)
qed

lemma store_ok_Next:
  assumes "store_ok \<sigma>" and "it < length (iters \<sigma>)"
  shows "\<exists>r \<sigma>'. Next zero it \<sigma> = Some (r, \<sigma>') \<and> store_ok \<sigma>'"
proof -
  from assms obtain xs where xs: "cursor_holds \<sigma> it xs" by (auto simp: store_ok_def)
  show ?thesis
  proof (cases xs)
    case Nil
    with xs assms show ?thesis by (auto simp: cursor_holds_def Next_end)
  next
    case (Cons x xs')
    with xs have "cursor_holds \<sigma> it (x # xs')" by simp
    from Next_holds [OF this, of zero] obtain p
      where n: "Next zero it \<sigma> = Some ((x, True), \<sigma>\<lparr>iters := (iters \<sigma>)[it := \<lparr>node = p\<rparr>]\<rparr>)"
        "chain (nodes \<sigma>) p xs'" by blast
    let ?\<sigma> = "\<sigma>\<lparr>iters := (iters \<sigma>)[it := \<lparr>node = p\<rparr>]\<rparr>"
    have "\<exists>ys. stack_holds ?\<sigma> t ys" if "t < length (stacks \<sigma>)" for t
      using assms(1) that by (simp add: store_ok_def stack_holds_def)
    moreover have "\<exists>ys. cursor_holds ?\<sigma> j ys" if "j < length (iters \<sigma>)" for j
    proof (cases "j = it")
      case True
      with n(2) that have "cursor_holds ?\<sigma> j xs'" by (simp add: cursor_holds_def)
      then show ?thesis ..
    next
      case False
      with assms(1) that show ?thesis by (simp add: store_ok_def cursor_holds_def)
    qed
    ultimately have "store_ok ?\<sigma>" by (simp add: store_ok_def)
    with n(1) show ?thesis by blast
  qed
qed

section \<open>The properties\<close>

text \<open>
  Claim C1. For every producer whose sequence is finite and not empty (\<open>Pull seq = Some xs\<close>
  with \<open>xs \<noteq> []\<close>: driven to its end it hands out exactly the elements \<open>xs\<close>),
  \<^verbatim>\<open>Max\<close> returns with a \<^verbatim>\<open>nil\<close> error, and the value \<open>m\<close> it returns is an element of
  the sequence that no element exceeds. This holds for the \<^verbatim>\<open>Max\<close> of stack.go and for
  the one of bug.go. The element type is a linear order.
\<close>

theorem Max_largest:
  assumes "Pull seq = Some xs" and "xs \<noteq> []"
  shows "\<exists>m. Max_stack zero seq = Some (m, None)
           \<and> map_option fst (Max_bug zero seq) = Some (m, None)
           \<and> m \<in> set xs \<and> (\<forall>x\<in>set xs. x \<le> m)"
proof -
  from assms(2) obtain x p where xs: "xs = x # p" by (cases xs) auto
  have "max_loop zero x p \<in> set xs" unfolding xs by (rule max_loop_mem)
  moreover have "\<forall>y\<in>set xs. y \<le> max_loop zero x p"
    unfolding xs using max_loop_ge [of x zero p] max_loop_upper [of _ p zero x] by auto
  ultimately show ?thesis
    using Max_stack_Cons [of seq x p zero] Max_bug_Cons [of seq x p zero] assms(1) xs by blast
qed

text \<open>
  The scenario of \<^verbatim>\<open>main\<close> in bug.go, \<^verbatim>\<open>Max(Ints(3))\<close>: the sequence is \<open>0, 1, 2\<close> and
  the result is \<open>2\<close> with no error.
\<close>

theorem Max_largest_witness:
  "Pull (\<lambda>yield c. Some (Ints 3 yield c)) = Some [0, 1, 2] \<and> [0, 1, 2 :: int] \<noteq> []
   \<and> Max_stack 0 (\<lambda>yield c. Some (Ints 3 yield c)) = Some (2, None)
   \<and> map_option fst (Max_bug 0 (\<lambda>yield c. Some (Ints 3 yield c))) = Some (2, None)"
proof -
  have p: "Pull (\<lambda>yield c. Some (Ints 3 yield c)) = Some [0, 1, 2]"
    by (simp add: Pull_Ints numeral_3_eq_3)
  have n: "[0, 1, 2 :: int] \<noteq> []" by simp
  from Max_largest [OF p n, of 0] p n show ?thesis by auto
qed

text \<open>
  Claim C2 (LIFO). On a stack holding any \<open>xs\<close>, pushing \<open>v1, \<dots>, vn\<close> with no pop in
  between succeeds, and the \<open>n\<close> pops that follow all succeed and return
  \<open>vn, \<dots>, v1\<close>, each with a \<^verbatim>\<open>nil\<close> error; afterwards the stack holds \<open>xs\<close> again.
\<close>

theorem push_pop_LIFO:
  assumes "stack_holds \<sigma> s xs"
  shows "\<exists>\<sigma>1 \<sigma>2. push_all s vs \<sigma> = Some \<sigma>1
           \<and> pop_n zero s (length vs) \<sigma>1 = Some (map (\<lambda>v. (v, None)) (rev vs), \<sigma>2)
           \<and> stack_holds \<sigma>2 s xs"
proof -
  from push_all_holds [OF assms, of vs] obtain \<sigma>1
    where 1: "push_all s vs \<sigma> = Some \<sigma>1" "stack_holds \<sigma>1 s (rev vs @ xs)" by blast
  from pop_n_holds [OF 1(2), of zero] obtain \<sigma>2
    where "pop_n zero s (length (rev vs)) \<sigma>1 = Some (map (\<lambda>v. (v, None)) (rev vs), \<sigma>2)"
      "stack_holds \<sigma>2 s xs" by blast
  with 1(1) show ?thesis by simp
qed

text \<open>The scenario of \<^verbatim>\<open>main\<close>: push 10, 20, 30 onto the empty stack; three pops give 30, 20, 10.\<close>

theorem push_pop_LIFO_witness:
  "stack_holds \<lparr>nodes = [], stacks = [\<lparr>head = None\<rparr>], iters = []\<rparr> 0 ([] :: int list)
   \<and> push_all 0 [10, 20, 30 :: int] \<lparr>nodes = [], stacks = [\<lparr>head = None\<rparr>], iters = []\<rparr>
       = Some \<lparr>nodes = [Node 10 None, Node 20 (Some 0), Node 30 (Some 1)],
               stacks = [\<lparr>head = Some 2\<rparr>], iters = []\<rparr>
   \<and> pop_n 0 0 3 \<lparr>nodes = [Node (10::int) None, Node 20 (Some 0), Node 30 (Some 1)],
               stacks = [\<lparr>head = Some 2\<rparr>], iters = []\<rparr>
       = Some ([(30, None), (20, None), (10, None)],
           \<lparr>nodes = [Node 10 None, Node 20 (Some 0), Node 30 (Some 1)],
               stacks = [\<lparr>head = None\<rparr>], iters = []\<rparr>)"
  using push_pop_LIFO [of "\<lparr>nodes = [], stacks = [\<lparr>head = None\<rparr>], iters = []\<rparr>" 0 "[] :: int list"
      "[10, 20, 30]" 0]
  by (simp add: stack_holds_def Push_def Pop_def deref_def Stack_head_update numeral_3_eq_3)

text \<open>
  Claim C3. \<open>Filter\<close> over a slice \<open>values\<close> with a predicate \<open>P\<close>, observed on both
  callbacks. Whatever the consumer does, the elements on which \<open>P\<close> was evaluated are an
  initial segment of \<open>values\<close>, each position once: \<open>P\<close> is never evaluated twice on a
  source element. When the consumer always continues, the consumer received exactly
  \<open>filter P values\<close> (the elements satisfying \<open>P\<close>, in the order of \<open>values\<close>), as many
  as there are such elements, and \<open>P\<close> was evaluated once on every element.
\<close>

theorem Filter_order_subset:
  "\<exists>c' plog ylog.
     Filter values (observed_pred (\<lambda>v c. (P v, c))) (observed_yield yield) (c, [], [])
       = (c', plog, ylog)
     \<and> prefix (map fst plog) values
     \<and> ((\<forall>v c. fst (yield v c)) \<longrightarrow>
          map fst ylog = filter P values
          \<and> length ylog = length (filter P values)
          \<and> map fst plog = values)"
proof (cases "\<forall>v c. fst (yield v c)")
  case True
  have "map fst (map (\<lambda>v. (v, True)) (filter P values)) = filter P values"
    and "map fst (map (\<lambda>v. (v, P v)) values) = values"
    by (simp_all add: comp_def)
  with Filter_observed_all [OF True, of "values" P c "[]" "[]"] show ?thesis
    by simp
next
  case False
  with Filter_observed_prefix [of "values" P yield c "[]" "[]"] show ?thesis
    by auto
qed

text \<open>
  The run of \<^verbatim>\<open>main\<close> in filter.go: of the three events the second is not valid, the
  first and the third are emitted.
\<close>

theorem Filter_order_subset_witness:
  "(\<forall>v c. fst ((\<lambda>(v::Event) (c::unit). (True, c)) v c))
   \<and> Filter [\<lparr>User = ''elliot'', Kind = ''login''\<rparr>, \<lparr>User = '''', Kind = ''access''\<rparr>,
              \<lparr>User = ''elliot'', Kind = ''logout''\<rparr>]
         (observed_pred (\<lambda>v c. (Valid v, c))) (observed_yield (\<lambda>v c. (True, c))) ((), [], [])
       = ((),
          [(\<lparr>User = ''elliot'', Kind = ''login''\<rparr>, True), (\<lparr>User = '''', Kind = ''access''\<rparr>, False),
           (\<lparr>User = ''elliot'', Kind = ''logout''\<rparr>, True)],
          [(\<lparr>User = ''elliot'', Kind = ''login''\<rparr>, True), (\<lparr>User = ''elliot'', Kind = ''logout''\<rparr>, True)])"
  using Filter_order_subset
    [of "[\<lparr>User = ''elliot'', Kind = ''login''\<rparr>, \<lparr>User = '''', Kind = ''access''\<rparr>,
          \<lparr>User = ''elliot'', Kind = ''logout''\<rparr>]" Valid "\<lambda>v c. (True, c)" "()"]
  by (simp add: observed_pred_def observed_yield_def Valid_def)

text \<open>
  Claim C4. Let the stack \<open>s\<close> hold \<open>xs\<close>. If it is empty, any number \<open>k\<close> of
  consecutive \<^verbatim>\<open>Pop\<close> calls return the zero value with \<^verbatim>\<open>ErrEmpty\<close>, every one of
  them, and leave the store as it was. The same holds once the stack has been drained
  by \<open>length xs\<close> successful pops, and for a stack that has just been created. A single
  \<^verbatim>\<open>Pop\<close> always returns, and its error is \<^verbatim>\<open>ErrEmpty\<close> when the stack is empty and
  \<^verbatim>\<open>nil\<close> otherwise: the empty stack is the only error condition. (\<^verbatim>\<open>Push\<close>,
  \<^verbatim>\<open>Items\<close> and \<^verbatim>\<open>Next\<close> have no error result.)
\<close>

theorem Pop_empty_every_time:
  assumes "stack_holds \<sigma> s xs"
  shows "(xs = [] \<longrightarrow> pop_n zero s k \<sigma> = Some (replicate k (zero, Some ErrEmpty), \<sigma>))
       \<and> (\<exists>\<sigma>'. pop_n zero s (length xs) \<sigma> = Some (map (\<lambda>v. (v, None)) xs, \<sigma>')
              \<and> pop_n zero s k \<sigma>' = Some (replicate k (zero, Some ErrEmpty), \<sigma>'))
       \<and> pop_n zero (fst (NewStack \<sigma>)) k (snd (NewStack \<sigma>))
            = Some (replicate k (zero, Some ErrEmpty), snd (NewStack \<sigma>))
       \<and> (\<exists>v e \<sigma>'. Pop zero s \<sigma> = Some ((v, e), \<sigma>')
              \<and> e = (if xs = [] then Some ErrEmpty else None))"
proof -
  have empty: "pop_n zero t k \<tau> = Some (replicate k (zero, Some ErrEmpty), \<tau>)"
    if "stack_holds \<tau> t []" for t and \<tau> :: "'a store"
    using that by (simp add: stack_holds_def pop_n_empty)
  from assms have "stack_holds \<sigma> s (xs @ [])" by simp
  from pop_n_holds [OF this, of zero] obtain \<sigma>'
    where d: "pop_n zero s (length xs) \<sigma> = Some (map (\<lambda>v. (v, None)) xs, \<sigma>')"
      "stack_holds \<sigma>' s []" by blast
  have one: "\<exists>v e \<sigma>'. Pop zero s \<sigma> = Some ((v, e), \<sigma>')
      \<and> e = (if xs = [] then Some ErrEmpty else None)"
  proof (cases xs)
    case Nil
    with assms show ?thesis by (simp add: stack_holds_def Pop_empty)
  next
    case (Cons x xs')
    with assms have "stack_holds \<sigma> s (x # xs')" by simp
    from Pop_holds [OF this, of zero] Cons show ?thesis by auto
  qed
  from assms empty d one NewStack_holds [of \<sigma>] show ?thesis by blast
qed

text \<open>A stack holding 20, 10: two pops drain it, the next two report \<^verbatim>\<open>ErrEmpty\<close> with the zero value.\<close>

theorem Pop_empty_every_time_witness:
  "stack_holds \<lparr>nodes = [Node (10::int) None, Node 20 (Some 0)], stacks = [\<lparr>head = Some 1\<rparr>], iters = []\<rparr> 0 [20, 10]
   \<and> pop_n 0 0 2 \<lparr>nodes = [Node (10::int) None, Node 20 (Some 0)], stacks = [\<lparr>head = Some 1\<rparr>], iters = []\<rparr>
       = Some ([(20, None), (10, None)],
               \<lparr>nodes = [Node 10 None, Node 20 (Some 0)], stacks = [\<lparr>head = None\<rparr>], iters = []\<rparr>)
   \<and> pop_n 0 0 2 \<lparr>nodes = [Node (10::int) None, Node 20 (Some 0)], stacks = [\<lparr>head = None\<rparr>], iters = []\<rparr>
       = Some ([(0, Some ErrEmpty), (0, Some ErrEmpty)],
               \<lparr>nodes = [Node 10 None, Node 20 (Some 0)], stacks = [\<lparr>head = None\<rparr>], iters = []\<rparr>)
   \<and> Pop 0 0 \<lparr>nodes = [Node (10::int) None, Node 20 (Some 0)], stacks = [\<lparr>head = Some 1\<rparr>], iters = []\<rparr>
       = Some ((20, None),
               \<lparr>nodes = [Node 10 None, Node 20 (Some 0)], stacks = [\<lparr>head = Some 0\<rparr>], iters = []\<rparr>)"
  using Pop_empty_every_time
    [of "\<lparr>nodes = [Node (10::int) None, Node 20 (Some 0)], stacks = [\<lparr>head = Some 1\<rparr>], iters = []\<rparr>"
      0 "[20, 10]" 0 2]
  by (simp add: stack_holds_def Pop_def deref_def Stack_head_update numeral_2_eq_2)

text \<open>
  Claim C5. Let the stack \<open>s\<close> hold \<open>xs\<close>. Two calls of \<^verbatim>\<open>Items\<close> give two distinct
  cursor objects; draining the first yields \<open>xs\<close>, and draining the second afterwards
  still yields all of \<open>xs\<close>, while the stack still holds \<open>xs\<close>. And whatever pushes
  and pops \<open>ops\<close> are performed on the stack after a cursor has been created, draining
  the cursor then yields the \<open>xs\<close> the stack held when the cursor was created.
\<close>

theorem cursors_decoupled:
  assumes "stack_holds \<sigma> s xs"
  shows "(\<exists>it1 \<sigma>1 it2 \<sigma>2 \<sigma>3 \<sigma>4.
            Items s \<sigma> = Some (it1, \<sigma>1) \<and> Items s \<sigma>1 = Some (it2, \<sigma>2) \<and> it1 \<noteq> it2
            \<and> drain zero it1 \<sigma>2 = Some (xs, \<sigma>3) \<and> drain zero it2 \<sigma>3 = Some (xs, \<sigma>4)
            \<and> stack_holds \<sigma>4 s xs)
       \<and> (\<exists>it \<sigma>1 \<sigma>2 \<sigma>3.
            Items s \<sigma> = Some (it, \<sigma>1) \<and> run_ops zero s ops \<sigma>1 = Some \<sigma>2
            \<and> drain zero it \<sigma>2 = Some (xs, \<sigma>3))"
proof
  from Items_holds [OF assms] obtain \<sigma>1
    where 1: "Items s \<sigma> = Some (length (iters \<sigma>), \<sigma>1)" "cursor_holds \<sigma>1 (length (iters \<sigma>)) xs"
      "stack_holds \<sigma>1 s xs" "length (iters \<sigma>1) = Suc (length (iters \<sigma>))"
    by blast
  from Items_holds [OF 1(3)] obtain \<sigma>2
    where 2: "Items s \<sigma>1 = Some (length (iters \<sigma>1), \<sigma>2)" "cursor_holds \<sigma>2 (length (iters \<sigma>1)) xs"
      "stack_holds \<sigma>2 s xs" "\<forall>it ys. cursor_holds \<sigma>1 it ys \<longrightarrow> cursor_holds \<sigma>2 it ys"
    by blast
  from 1(4) have ne: "length (iters \<sigma>1) \<noteq> length (iters \<sigma>)" by simp
  from 2(4) 1(2) have c1: "cursor_holds \<sigma>2 (length (iters \<sigma>)) xs" by blast
  from drain_other [OF c1 2(2) ne 2(3), of zero] obtain \<sigma>3
    where 3: "drain zero (length (iters \<sigma>)) \<sigma>2 = Some (xs, \<sigma>3)"
      "cursor_holds \<sigma>3 (length (iters \<sigma>1)) xs" "stack_holds \<sigma>3 s xs"
    by blast
  define \<sigma>4 where "\<sigma>4 = \<sigma>3\<lparr>iters := (iters \<sigma>3)[length (iters \<sigma>1) := \<lparr>node = None\<rparr>]\<rparr>"
  have 4: "drain zero (length (iters \<sigma>1)) \<sigma>3 = Some (xs, \<sigma>4)"
    unfolding \<sigma>4_def using 3(2) by (rule drain_holds)
  have "stack_holds \<sigma>4 s xs"
    using 3(3) by (simp add: \<sigma>4_def stack_holds_def)
  with 1(1) 2(1) ne [symmetric] 3(1) 4
  show "\<exists>it1 \<sigma>1 it2 \<sigma>2 \<sigma>3 \<sigma>4.
          Items s \<sigma> = Some (it1, \<sigma>1) \<and> Items s \<sigma>1 = Some (it2, \<sigma>2) \<and> it1 \<noteq> it2
          \<and> drain zero it1 \<sigma>2 = Some (xs, \<sigma>3) \<and> drain zero it2 \<sigma>3 = Some (xs, \<sigma>4)
          \<and> stack_holds \<sigma>4 s xs"
    by blast
  from run_ops_holds [OF 1(3) 1(2), of zero ops] obtain \<sigma>2' ys'
    where r: "run_ops zero s ops \<sigma>1 = Some \<sigma>2'" "stack_holds \<sigma>2' s ys'"
      "cursor_holds \<sigma>2' (length (iters \<sigma>)) xs"
    by blast
  from drain_holds [OF r(3), of zero] 1(1) r(1)
  show "\<exists>it \<sigma>1 \<sigma>2 \<sigma>3.
          Items s \<sigma> = Some (it, \<sigma>1) \<and> run_ops zero s ops \<sigma>1 = Some \<sigma>2
          \<and> drain zero it \<sigma>2 = Some (xs, \<sigma>3)"
    by blast
qed

text \<open>
  A stack holding 20, 10. Two cursors both yield 20, 10; and a cursor created before a
  push of 30 and two pops yields 20, 10 as well.
\<close>

theorem cursors_decoupled_witness:
  "stack_holds \<lparr>nodes = [Node (10::int) None, Node 20 (Some 0)], stacks = [\<lparr>head = Some 1\<rparr>], iters = []\<rparr> 0 [20, 10]
   \<and> Items 0 \<lparr>nodes = [Node (10::int) None, Node 20 (Some 0)], stacks = [\<lparr>head = Some 1\<rparr>], iters = []\<rparr>
       = Some (0, \<lparr>nodes = [Node 10 None, Node 20 (Some 0)], stacks = [\<lparr>head = Some 1\<rparr>],
                   iters = [\<lparr>node = Some 1\<rparr>]\<rparr>)
   \<and> Items 0 \<lparr>nodes = [Node (10::int) None, Node 20 (Some 0)], stacks = [\<lparr>head = Some 1\<rparr>],
                 iters = [\<lparr>node = Some 1\<rparr>]\<rparr>
       = Some (1, \<lparr>nodes = [Node 10 None, Node 20 (Some 0)], stacks = [\<lparr>head = Some 1\<rparr>],
                   iters = [\<lparr>node = Some 1\<rparr>, \<lparr>node = Some 1\<rparr>]\<rparr>)
   \<and> drain 0 0 \<lparr>nodes = [Node (10::int) None, Node 20 (Some 0)], stacks = [\<lparr>head = Some 1\<rparr>],
                   iters = [\<lparr>node = Some 1\<rparr>, \<lparr>node = Some 1\<rparr>]\<rparr>
       = Some ([20, 10], \<lparr>nodes = [Node 10 None, Node 20 (Some 0)], stacks = [\<lparr>head = Some 1\<rparr>],
                   iters = [\<lparr>node = None\<rparr>, \<lparr>node = Some 1\<rparr>]\<rparr>)
   \<and> drain 0 1 \<lparr>nodes = [Node (10::int) None, Node 20 (Some 0)], stacks = [\<lparr>head = Some 1\<rparr>],
                   iters = [\<lparr>node = None\<rparr>, \<lparr>node = Some 1\<rparr>]\<rparr>
       = Some ([20, 10], \<lparr>nodes = [Node 10 None, Node 20 (Some 0)], stacks = [\<lparr>head = Some 1\<rparr>],
                   iters = [\<lparr>node = None\<rparr>, \<lparr>node = None\<rparr>]\<rparr>)
   \<and> run_ops 0 0 [DoPush 30, DoPop, DoPop]
         \<lparr>nodes = [Node (10::int) None, Node 20 (Some 0)], stacks = [\<lparr>head = Some 1\<rparr>],
            iters = [\<lparr>node = Some 1\<rparr>]\<rparr>
       = Some \<lparr>nodes = [Node 10 None, Node 20 (Some 0), Node 30 (Some 1)], stacks = [\<lparr>head = Some 0\<rparr>],
               iters = [\<lparr>node = Some 1\<rparr>]\<rparr>
   \<and> drain 0 0 \<lparr>nodes = [Node (10::int) None, Node 20 (Some 0), Node 30 (Some 1)],
                   stacks = [\<lparr>head = Some 0\<rparr>], iters = [\<lparr>node = Some 1\<rparr>]\<rparr>
       = Some ([20, 10], \<lparr>nodes = [Node 10 None, Node 20 (Some 0), Node 30 (Some 1)],
                   stacks = [\<lparr>head = Some 0\<rparr>], iters = [\<lparr>node = None\<rparr>]\<rparr>)"
  using cursors_decoupled
    [of "\<lparr>nodes = [Node (10::int) None, Node 20 (Some 0)], stacks = [\<lparr>head = Some 1\<rparr>], iters = []\<rparr>"
      0 "[20, 10]" 0 "[DoPush 30, DoPop, DoPop]"]
  by (simp add: stack_holds_def Items_def Push_def Pop_def Next_def deref_def drain.simps
      Stack_head_update StackIterator_node_update)

text \<open>
  Claim C6. For a producer whose sequence is empty (\<open>Pull seq = Some []\<close>: the first pull
  yields nothing), \<^verbatim>\<open>Max\<close> returns the error \<^verbatim>\<open>fmt.Errorf("Max of empty sequence")\<close>
  together with the zero value of the element type, in stack.go and in bug.go.
\<close>

theorem Max_empty:
  assumes "Pull seq = Some []"
  shows "Max_stack zero seq = Some (zero, Some (Errorf ''Max of empty sequence''))
       \<and> map_option fst (Max_bug zero seq) = Some (zero, Some (Errorf ''Max of empty sequence''))"
  using assms by (simp add: Max_stack_Nil Max_bug_Nil)

text \<open>\<^verbatim>\<open>Max(s.Iter())\<close> on a new, empty stack of integers.\<close>

theorem Max_empty_witness:
  "Pull (Iter 0 \<lparr>nodes = [], stacks = [\<lparr>head = None\<rparr>], iters = []\<rparr>) = Some ([] :: int list)
   \<and> Max_stack (0::int) (Iter 0 \<lparr>nodes = [], stacks = [\<lparr>head = None\<rparr>], iters = []\<rparr>)
       = Some (0, Some (Errorf ''Max of empty sequence''))
   \<and> map_option fst (Max_bug (0::int) (Iter 0 \<lparr>nodes = [], stacks = [\<lparr>head = None\<rparr>], iters = []\<rparr>))
       = Some (0, Some (Errorf ''Max of empty sequence''))"
proof -
  have p: "Pull (Iter 0 \<lparr>nodes = [], stacks = [\<lparr>head = None\<rparr>], iters = []\<rparr>) = Some ([] :: int list)"
    by (simp add: Pull_def Iter_def deref_def iter_loop.simps)
  from Max_empty [OF p, of 0] p show ?thesis by simp
qed

text \<open>
  Claim C7. The source of \<open>Filter\<close> is a slice, so the producer is of any length rather
  than infinite. For every slice \<open>values\<close>, predicate \<open>P\<close> and consumer, observed on both
  callbacks:
  \<^item> \<open>P\<close> was evaluated on an initial segment of \<open>values\<close>, in order, and the log holds
    its answers;
  \<^item> the consumer was handed exactly the elements of that segment satisfying \<open>P\<close>, in
    order, and every invocation but the last returned \<^verbatim>\<open>true\<close>;
  \<^item> the evaluation ends before the end of the slice only when the consumer's last
    answer was \<^verbatim>\<open>false\<close>;
  \<^item> once the consumer has answered \<^verbatim>\<open>false\<close>, the last element on which \<open>P\<close> was
    evaluated is the very element the consumer was handed then: no element after it is
    read, whichever match the consumer stops at;
  \<^item> in particular, when the slice is \<open>pre @ x # rest\<close> with \<open>x\<close> the first element
    satisfying \<open>P\<close> and the consumer stops on \<open>x\<close>, then \<open>P\<close> was evaluated on \<open>pre\<close>
    and \<open>x\<close> only and the consumer was invoked once, whatever \<open>rest\<close> is.
\<close>

theorem Filter_lazy:
  "\<exists>c' plog ylog.
     Filter values (observed_pred (\<lambda>v c. (P v, c))) (observed_yield yield) (c, [], [])
       = (c', plog, ylog)
     \<and> prefix (map fst plog) values
     \<and> (\<forall>e\<in>set plog. snd e = P (fst e))
     \<and> map fst ylog = filter P (map fst plog)
     \<and> (\<forall>e\<in>set (butlast ylog). snd e)
     \<and> (length plog < length values \<longrightarrow> ylog \<noteq> [] \<and> \<not> snd (last ylog))
     \<and> (ylog \<noteq> [] \<and> \<not> snd (last ylog) \<longrightarrow> plog \<noteq> [] \<and> last plog = (fst (last ylog), True))
     \<and> (\<forall>pre x rest.
           values = pre @ x # rest \<and> (\<forall>v\<in>set pre. \<not> P v) \<and> P x \<and> \<not> fst (yield x c) \<longrightarrow>
             c' = snd (yield x c)
             \<and> plog = map (\<lambda>v. (v, False)) pre @ [(x, True)]
             \<and> ylog = [(x, False)])"
proof -
  from Filter_observed_general [of "values" P yield c "[]" "[]"] obtain c' plog ylog
    where g: "Filter values (observed_pred (\<lambda>v c. (P v, c))) (observed_yield yield) (c, [], [])
                = (c', plog, ylog)"
      "prefix (map fst plog) values" "\<forall>e\<in>set plog. snd e = P (fst e)"
      "map fst ylog = filter P (map fst plog)" "\<forall>e\<in>set (butlast ylog). snd e"
      "length plog < length values \<longrightarrow> ylog \<noteq> [] \<and> \<not> snd (last ylog)"
      "ylog \<noteq> [] \<and> \<not> snd (last ylog) \<longrightarrow> plog \<noteq> [] \<and> last plog = (fst (last ylog), True)"
    by auto
  have "c' = snd (yield x c) \<and> plog = map (\<lambda>v. (v, False)) pre @ [(x, True)] \<and> ylog = [(x, False)]"
    if "values = pre @ x # rest" "\<forall>v\<in>set pre. \<not> P v" "P x" "\<not> fst (yield x c)" for pre x rest
    using Filter_observed_stop [of pre P x yield c rest "[]" "[]"] that g(1) by simp
  with g show ?thesis by blast
qed

text \<open>
  The even numbers of 1, \<dots>, 6 with a consumer that stops at 4, the second match: the
  predicate sees 1, 2, 3, 4 and never 5 or 6. And the first even number of 1, 3, 4, 5, 6
  with a consumer that stops at once: the predicate sees 1, 3 and 4 only.
\<close>

theorem Filter_lazy_witness:
  "Filter [1, 2, 3, 4, 5, 6 :: int] (observed_pred (\<lambda>v c. (even v, c)))
       (observed_yield (\<lambda>v c. (v \<noteq> 4, c + 1))) (0 :: nat, [], [])
     = (2, [(1, False), (2, True), (3, False), (4, True)], [(2, True), (4, False)])
   \<and> \<not> even (1 :: int) \<and> \<not> even (3 :: int) \<and> even (4 :: int)
   \<and> \<not> fst ((\<lambda>(v::int) (c::nat). (False, c + 1)) 4 0)
   \<and> Filter ([1, 3] @ 4 # [5, 6]) (observed_pred (\<lambda>v c. (even v, c)))
         (observed_yield (\<lambda>v c. (False, c + 1))) (0 :: nat, [], [])
       = (1, [(1 :: int, False), (3, False), (4, True)], [(4, False)])"
  using Filter_lazy [of "[1, 2, 3, 4, 5, 6 :: int]" even "\<lambda>v c. (v \<noteq> 4, c + 1)" "0 :: nat"]
    Filter_lazy [of "[1, 3, 4, 5, 6 :: int]" even "\<lambda>v c. (False, c + 1)" "0 :: nat"]
  by (simp add: observed_pred_apply observed_yield_apply)

text \<open>
  Claim C8. Let the stack \<open>s\<close> hold \<open>xs\<close> (head to tail) and let \<open>yield\<close> be any consumer,
  observed. The producer of \<^verbatim>\<open>Iter\<close> returns, with the consumer's state as without
  observation. The elements it handed to the consumer are an initial segment of \<open>xs\<close>,
  in order; every invocation but the last returned \<^verbatim>\<open>true\<close>, so the consumer is never
  invoked after it has returned \<^verbatim>\<open>false\<close>; the producer stops before the end of \<open>xs\<close>
  only when the last invocation returned \<^verbatim>\<open>false\<close>; and when the consumer always
  returned \<^verbatim>\<open>true\<close> it was handed all of \<open>xs\<close>.
\<close>

theorem Iter_protocol:
  assumes "stack_holds \<sigma> s xs"
  shows "\<exists>c' log. Iter s \<sigma> (observed yield) (c, []) = Some (c', log)
           \<and> Iter s \<sigma> yield c = Some c'
           \<and> prefix (map fst log) xs
           \<and> (\<forall>e\<in>set (butlast log). snd e)
           \<and> (length log < length xs \<longrightarrow> log \<noteq> [] \<and> \<not> snd (last log))
           \<and> ((\<forall>e\<in>set log. snd e) \<longrightarrow> map fst log = xs)"
proof -
  from drive_observed [of yield xs c "[]"] obtain log
    where l: "drive (observed yield) xs (c, []) = (drive yield xs c, log)"
      "prefix (map fst log) xs" "\<forall>e\<in>set (butlast log). snd e"
      "length log < length xs \<longrightarrow> log \<noteq> [] \<and> \<not> snd (last log)"
    by auto
  from l(2) l(4) have "(\<forall>e\<in>set log. snd e) \<longrightarrow> map fst log = xs"
    by (blast intro: log_all_true)
  with l Iter_holds [OF assms, of "observed yield" "(c, [])"] Iter_holds [OF assms, of yield c]
  show ?thesis by simp
qed

text \<open>
  A stack holding 30, 20, 10 and a consumer that adds up what it is handed and stops at
  20: it is invoked on 30 and 20 and never on 10.
\<close>

theorem Iter_protocol_witness:
  "stack_holds \<lparr>nodes = [Node (10::int) None, Node 20 (Some 0), Node 30 (Some 1)],
                 stacks = [\<lparr>head = Some 2\<rparr>], iters = []\<rparr> 0 [30, 20, 10]
   \<and> Iter 0 \<lparr>nodes = [Node (10::int) None, Node 20 (Some 0), Node 30 (Some 1)],
               stacks = [\<lparr>head = Some 2\<rparr>], iters = []\<rparr>
         (observed (\<lambda>v c. (v \<noteq> 20, c + v))) (0, [])
       = Some (50, [(30, True), (20, False)])"
  using Iter_protocol
    [of "\<lparr>nodes = [Node (10::int) None, Node 20 (Some 0), Node 30 (Some 1)],
           stacks = [\<lparr>head = Some 2\<rparr>], iters = []\<rparr>" 0 "[30, 20, 10]" "\<lambda>v c. (v \<noteq> 20, c + v)" 0]
  by (simp add: stack_holds_def Iter_def deref_def iter_loop.simps observed_def)

text \<open>
  Claim C9. \<^verbatim>\<open>Pop\<close> on a stack whose head is \<^verbatim>\<open>nil\<close> returns the zero value of the
  element type with \<^verbatim>\<open>ErrEmpty\<close>, and the store it leaves is the store it found: the
  head pointer, and everything else, is unchanged.
\<close>

theorem Pop_empty_atomic:
  "s < length (stacks \<sigma>) \<Longrightarrow> head (stacks \<sigma> ! s) = None
     \<Longrightarrow> Pop zero s \<sigma> = Some ((zero, Some ErrEmpty), \<sigma>)"
  by (simp add: Pop_def deref_Some)

text \<open>A stack drained after one push: the node is still in the store, the head is \<^verbatim>\<open>nil\<close>.\<close>

theorem Pop_empty_atomic_witness:
  "(0::nat) < length (stacks \<lparr>nodes = [Node (10::int) None], stacks = [\<lparr>head = None\<rparr>], iters = []\<rparr>)
   \<and> head (stacks \<lparr>nodes = [Node (10::int) None], stacks = [\<lparr>head = None\<rparr>], iters = []\<rparr> ! 0) = None
   \<and> Pop 0 0 \<lparr>nodes = [Node (10::int) None], stacks = [\<lparr>head = None\<rparr>], iters = []\<rparr>
       = Some ((0, Some ErrEmpty), \<lparr>nodes = [Node 10 None], stacks = [\<lparr>head = None\<rparr>], iters = []\<rparr>)"
  using Pop_empty_atomic [of 0 "\<lparr>nodes = [Node (10::int) None], stacks = [\<lparr>head = None\<rparr>], iters = []\<rparr>" 0]
  by simp

text \<open>
  Claim C10. For every producer, the \<^verbatim>\<open>Max\<close> of bug.go returns exactly the value and
  error that the \<^verbatim>\<open>Max\<close> of stack.go returns (and returns when it does); the two differ
  only in the lines bug.go prints.
\<close>

theorem Max_variants_agree: "map_option fst (Max_bug zero seq) = Max_stack zero seq"
proof (cases "Pull seq")
  case None
  then show ?thesis by (simp add: Max_bug_def Max_stack_def)
next
  case (Some p)
  show ?thesis
  proof (cases p)
    case Nil
    with Some show ?thesis by (simp add: Max_bug_Nil Max_stack_Nil)
  next
    case (Cons x p')
    with Some show ?thesis by (simp add: Max_bug_Cons Max_stack_Cons)
  qed
qed

end
